theory Spec2Isabelle
  imports Main "HOL-Library.Sublist" "HOL-Library.AList"
begin

section \<open>MindCare AI: the response parser, the risk banner and the report export\<close>

text \<open>
  The program is \<^verbatim>\<open>app.py\<close>. A Python \<^verbatim>\<open>str\<close> is a \<^typ>\<open>string\<close>, one
  \<^typ>\<open>char\<close> per code point below 256. Among these \<^verbatim>\<open>\d\<close> takes 0 to 9
  only, and under \<^verbatim>\<open>re.IGNORECASE\<close> a letter of the patterns, all of them ASCII,
  takes its upper and its lower case form only. The four emoji of the banner literals
  lie outside this range and are written as their UTF-8 bytes. Python's integers are
  \<^typ>\<open>int\<close>.
\<close>

subsection \<open>Characters, decimal numerals\<close>

definition newline :: char where
  "newline = CHR 0x0A"

definition is_digit :: "char \<Rightarrow> bool" where
  "is_digit c = (48 \<le> (of_char c :: nat) \<and> (of_char c :: nat) \<le> 57)"

definition is_upper :: "char \<Rightarrow> bool" where
  "is_upper c = (65 \<le> (of_char c :: nat) \<and> (of_char c :: nat) \<le> 90)"

text \<open>\<^verbatim>\<open>str.lower\<close> on one character, as far as the patterns' letters need it.\<close>

definition lower :: "char \<Rightarrow> char" where
  "lower c = (if is_upper c then char_of (of_char c + (32::nat)) else c)"

definition digit_val :: "char \<Rightarrow> int" where
  "digit_val c = int (of_char c) - 48"

text \<open>The value of a run of decimal digits, most significant first.\<close>

fun dec_val :: "int \<Rightarrow> string \<Rightarrow> int" where
  "dec_val acc [] = acc"
| "dec_val acc (c # cs) = dec_val (10 * acc + digit_val c) cs"

datatype error = ValueError | IndexError | FPDFException

text \<open>
  \<^verbatim>\<open>int(s)\<close> on a string. Python raises \<^verbatim>\<open>ValueError\<close> on a string that is
  not a numeral. The captures handed to it below come from \<^verbatim>\<open>\d\<close> only, so the
  signs, blanks and underscores that \<^verbatim>\<open>int\<close> also reads are left out: a string
  that is not a non-empty run of digits is an error here. The result is a Python
  integer, without bound; the interpreter's configurable limit on the length of a
  decimal string is not modelled.
\<close>

definition py_int :: "string \<Rightarrow> error + int" where
  "py_int s = (if s \<noteq> [] \<and> list_all is_digit s then Inr (dec_val 0 s) else Inl ValueError)"

definition digit_char :: "nat \<Rightarrow> char" where
  "digit_char d = char_of (48 + d)"

text \<open>\<^verbatim>\<open>str(n)\<close>, which is what an f-string field \<^verbatim>\<open>{score}\<close> renders.\<close>

function str_nat :: "nat \<Rightarrow> string" where
  "str_nat n = (if n < 10 then [digit_char n] else str_nat (n div 10) @ [digit_char (n mod 10)])"
  by pat_completeness auto
termination
  by (relation "measure id") auto

declare str_nat.simps [simp del]

definition str_int :: "int \<Rightarrow> string" where
  "str_int i = (if i < 0 then CHR ''-'' # str_nat (nat (- i)) else str_nat (nat i))"

subsection \<open>The risk banner\<close>

text \<open>
  \<^verbatim>\<open>st.markdown(s)\<close> appends one block to the page being rendered; the page is the
  list of blocks written so far.
\<close>

type_synonym page = "string list"

definition st_markdown :: "string \<Rightarrow> page \<Rightarrow> page" where
  "st_markdown s pg = pg @ [s]"

definition red_circle :: string where
  "red_circle = [CHR 0xF0, CHR 0x9F, CHR 0x94, CHR 0xB4]"

definition orange_circle :: string where
  "orange_circle = [CHR 0xF0, CHR 0x9F, CHR 0x9F, CHR 0xA0]"

definition green_circle :: string where
  "green_circle = [CHR 0xF0, CHR 0x9F, CHR 0x9F, CHR 0xA2]"

definition sos_sign :: string where
  "sos_sign = [CHR 0xF0, CHR 0x9F, CHR 0x86, CHR 0x98]"

definition high_heading :: "int \<Rightarrow> string" where
  "high_heading score = ''### '' @ red_circle @ '' High Risk ('' @ str_int score @ ''/100)''"

definition moderate_heading :: "int \<Rightarrow> string" where
  "moderate_heading score =
     ''### '' @ orange_circle @ '' Moderate Risk ('' @ str_int score @ ''/100)''"

definition low_heading :: "int \<Rightarrow> string" where
  "low_heading score = ''### '' @ green_circle @ '' Low Risk ('' @ str_int score @ ''/100)''"

definition crisis_url :: string where
  "crisis_url = ''https://www.opencounseling.com/suicide-hotlines''"

definition crisis_link :: string where
  "crisis_link = ''['' @ sos_sign @ '' Crisis Support Resources]('' @ crisis_url @ '')''"

definition display_risk_level :: "int \<Rightarrow> page \<Rightarrow> page" where
  "display_risk_level score pg =
     (if score \<ge> 67 then
        st_markdown crisis_link (st_markdown (high_heading score) pg)
      else if 34 \<le> score \<and> score \<le> 66 then
        st_markdown (moderate_heading score) pg
      else
        st_markdown (low_heading score) pg)"

subsection \<open>Regular expressions as \<^verbatim>\<open>re\<close> runs them\<close>

text \<open>
  The two patterns of the program use literal characters, \<^verbatim>\<open>.\<close>, \<^verbatim>\<open>\d\<close>,
  sequence, alternation, the lazy star \<^verbatim>\<open>*?\<close>, the greedy repetitions
  \<^verbatim>\<open>+\<close> and \<^verbatim>\<open>{1,3}\<close> of one character class, and capture groups.
\<close>

datatype atom = Chr char | Dot | Digit

datatype regex =
    Eps
  | Atom atom
  | Seq regex regex
  | Alt regex regex
  | Lazy_star atom
  | Greedy atom nat "nat option"
  | Group regex

text \<open>
  One character against one atom. The first argument is the \<^verbatim>\<open>IGNORECASE\<close> flag.
  Without \<^verbatim>\<open>DOTALL\<close>, the dot takes every character but the line feed.
\<close>

fun accepts :: "bool \<Rightarrow> atom \<Rightarrow> char \<Rightarrow> bool" where
  "accepts ic (Chr a) c = (if ic then lower c = lower a else c = a)"
| "accepts ic Dot c = (c \<noteq> newline)"
| "accepts ic Digit c = is_digit c"

text \<open>
  The matcher backtracks. Each function lists every way to match at the start of the
  input, as the input left over, in the order in which the backtracking tries them:
  the head of the list is the match that \<^verbatim>\<open>re\<close> reports. The lazy star tries
  the shortest repetition first, the greedy repetition the longest.
\<close>

fun lazy_star :: "bool \<Rightarrow> atom \<Rightarrow> string \<Rightarrow> string list" where
  "lazy_star ic a [] = [[]]"
| "lazy_star ic a (c # cs) = (c # cs) # (if accepts ic a c then lazy_star ic a cs else [])"

fun greedy :: "bool \<Rightarrow> atom \<Rightarrow> nat \<Rightarrow> nat option \<Rightarrow> string \<Rightarrow> string list" where
  "greedy ic a lo hi [] = (if lo = 0 then [[]] else [])"
| "greedy ic a lo hi (c # cs) =
     (if accepts ic a c \<and> hi \<noteq> Some 0
      then greedy ic a (lo - 1) (map_option (\<lambda>h. h - 1) hi) cs else [])
     @ (if lo = 0 then [c # cs] else [])"

text \<open>
  An outcome is the text of the groups, in the order of their opening parentheses, and
  the input left.
\<close>

type_synonym outcome = "string list \<times> string"

fun rmatch :: "bool \<Rightarrow> regex \<Rightarrow> string \<Rightarrow> outcome list" where
  "rmatch ic Eps s = [([], s)]"
| "rmatch ic (Atom a) s =
     (case s of [] \<Rightarrow> [] | c # cs \<Rightarrow> if accepts ic a c then [([], cs)] else [])"
| "rmatch ic (Seq r1 r2) s =
     concat (map (\<lambda>(g1, s1). map (\<lambda>(g2, s2). (g1 @ g2, s2)) (rmatch ic r2 s1)) (rmatch ic r1 s))"
| "rmatch ic (Alt r1 r2) s = rmatch ic r1 s @ rmatch ic r2 s"
| "rmatch ic (Lazy_star a) s = map (Pair []) (lazy_star ic a s)"
| "rmatch ic (Greedy a lo hi) s = map (Pair []) (greedy ic a lo hi s)"
| "rmatch ic (Group r) s =
     map (\<lambda>(g, s'). (take (length s - length s') s # g, s')) (rmatch ic r s)"

text \<open>A literal word is the sequence of its characters.\<close>

fun lit :: "string \<Rightarrow> regex" where
  "lit [] = Eps"
| "lit (c # cs) = Seq (Atom (Chr c)) (lit cs)"

text \<open>
  \<^verbatim>\<open>re.search\<close>: the first start position, from the left, at which the pattern
  matches; the result is the groups of that match, or \<open>None\<close>.
\<close>

fun re_search :: "bool \<Rightarrow> regex \<Rightarrow> string \<Rightarrow> string list option" where
  "re_search ic r [] = (case rmatch ic r [] of [] \<Rightarrow> None | (g, _) # _ \<Rightarrow> Some g)"
| "re_search ic r (c # cs) =
     (case rmatch ic r (c # cs) of [] \<Rightarrow> re_search ic r cs | (g, _) # _ \<Rightarrow> Some g)"

text \<open>
  \<^verbatim>\<open>re.findall\<close>: the groups of the successive non-overlapping matches, scanning
  from the left. After a match the scan resumes where the match ended; after an empty
  match the next match at that position must consume input (the flag \<open>adv\<close>). Where
  nothing matches the scan moves one character on.
\<close>

function re_findall :: "bool \<Rightarrow> regex \<Rightarrow> bool \<Rightarrow> string \<Rightarrow> string list list" where
  "re_findall ic r adv s =
     (case filter (\<lambda>(g, s'). \<not> adv \<or> s' \<noteq> s) (rmatch ic r s) of
        (g, s') # _ \<Rightarrow> g # re_findall ic r (s' = s) s'
      | [] \<Rightarrow> (case s of [] \<Rightarrow> [] | _ # cs \<Rightarrow> re_findall ic r False cs))"
  by pat_completeness auto
termination
proof -
  have lz: "s' \<in> set (lazy_star ic a s) \<Longrightarrow> suffix s' s" for s' ic a s
    by (induction s) (auto simp: suffix_Cons split: if_splits)
  have gr: "s' \<in> set (greedy ic a lo hi s) \<Longrightarrow> suffix s' s" for s' ic a lo hi s
    by (induction s arbitrary: lo hi) (auto simp: suffix_Cons split: if_splits)
  have rm: "(g, s') \<in> set (rmatch ic r s) \<Longrightarrow> suffix s' s" for g s' ic r s
  proof (induction r arbitrary: g s s')
    case (Seq r1 r2)
    then show ?case by (auto, meson suffix_order.trans)
  next
    case (Atom x)
    then show ?case by (auto simp: suffix_Cons split: list.splits if_splits)
  qed (auto dest: lz gr)
  have sh: "(g, s') \<in> set (rmatch ic r s) \<Longrightarrow> s' \<noteq> s \<Longrightarrow> length s' < length s"
    for g s' ic r s
    using rm [of g s' ic r s] by (auto simp: suffix_def)
  have fh: "x \<in> set xs \<and> P x" if "filter P xs = x # ys"
    for P :: "outcome \<Rightarrow> bool" and xs x ys
  proof -
    have "x \<in> set (filter P xs)" by (simp add: that)
    then show ?thesis by simp
  qed
  show ?thesis
    apply (relation "measure (\<lambda>(ic, r, adv, s). 2 * length s + (if adv then 0 else 1))")
      apply simp
     apply (auto dest!: fh dest: sh)
    done
qed

declare re_findall.simps [simp del]

subsection \<open>The response parser\<close>

text \<open>\<^verbatim>\<open>(Positive|Neutral|Negative).*?(\d+)%\<close>\<close>

definition sentiment_re :: regex where
  "sentiment_re =
     Seq (Group (Alt (lit ''Positive'') (Alt (lit ''Neutral'') (lit ''Negative''))))
       (Seq (Lazy_star Dot) (Seq (Group (Greedy Digit 1 None)) (Atom (Chr CHR ''%''))))"

text \<open>\<^verbatim>\<open>Risk.*?(\d{1,3})\<close>\<close>

definition risk_re :: regex where
  "risk_re = Seq (lit ''Risk'') (Seq (Lazy_star Dot) (Group (Greedy Digit 1 (Some 3))))"




text \<open>\<^verbatim>\<open>match.group(1)\<close> raises \<^verbatim>\<open>IndexError\<close> when the pattern has no group.\<close>

definition parse_risk_score :: "string \<Rightarrow> error + int" where
  "parse_risk_score text =
     (case re_search True risk_re text of
        Some g \<Rightarrow>
          (case g of
             [] \<Rightarrow> Inl IndexError
           | g1 # _ \<Rightarrow>
               (case py_int g1 of
                  Inl e \<Rightarrow> Inl e
                | Inr val \<Rightarrow> Inr (max 0 (min val 100))))
      | None \<Rightarrow> Inr 0)"

subsection \<open>The report export\<close>











subsection \<open>The extraction as the specification words it\<close>

text \<open>
  These definitions follow the specification's description of the risk score, not the
  pattern: they read the text from the left and never backtrack. They are compared
  with \<^const>\<open>parse_risk_score\<close> below.
\<close>

text \<open>The word \<open>w\<close> stands at the start of \<open>s\<close>, in any letter case.\<close>

definition ci_prefix :: "string \<Rightarrow> string \<Rightarrow> bool" where
  "ci_prefix w s = (length w \<le> length s \<and> map lower (take (length w) s) = map lower w)"

text \<open>
  The first run of digits on what is left of the line, cut to its first three digits;
  \<open>None\<close> when the line ends first.
\<close>

fun first_digit_run :: "string \<Rightarrow> string option" where
  "first_digit_run [] = None"
| "first_digit_run (c # cs) =
     (if is_digit c then Some (take 3 (takeWhile is_digit (c # cs)))
      else if c = newline then None
      else first_digit_run cs)"

fun spec_extractRiskScore :: "string \<Rightarrow> int" where
  "spec_extractRiskScore [] = 0"
| "spec_extractRiskScore (c # cs) =
     (if ci_prefix ''Risk'' (c # cs) then
        (case first_digit_run (drop 4 (c # cs)) of
           Some ds \<Rightarrow> max 0 (min (dec_val 0 ds) 100)
         | None \<Rightarrow> spec_extractRiskScore cs)
      else spec_extractRiskScore cs)"

subsection \<open>Notions used in the statements and proofs\<close>

text \<open>The part of the risk pattern after the word, and the bound of a repetition.\<close>

definition risk_tail :: regex where
  "risk_tail = Seq (Lazy_star Dot) (Group (Greedy Digit 1 (Some 3)))"

definition cap :: "nat option \<Rightarrow> nat \<Rightarrow> nat" where
  "cap hi n = (case hi of None \<Rightarrow> n | Some h \<Rightarrow> min n h)"

text \<open>
  The parts of the sentiment pattern: the label group, the number with its percent
  sign, and all that follows the label.
\<close>

definition label_re :: regex where
  "label_re = Group (Alt (lit ''Positive'') (Alt (lit ''Neutral'') (lit ''Negative'')))"

definition percent_re :: regex where
  "percent_re = Seq (Group (Greedy Digit 1 None)) (Atom (Chr CHR ''%''))"

definition sentiment_tail :: regex where
  "sentiment_tail = Seq (Lazy_star Dot) percent_re"

text \<open>
  A sentiment label in any letter case; a text that starts with one; a match of the
  sentiment pattern as the proofs below find it, a label and a non-empty run of digits.
\<close>

definition is_label :: "string \<Rightarrow> bool" where
  "is_label w =
     (map lower w = ''positive'' \<or> map lower w = ''neutral'' \<or> map lower w = ''negative'')"


definition wf_match :: "string list \<Rightarrow> bool" where
  "wf_match m =
     (case m of
        [lab, ds] \<Rightarrow> is_label lab \<and> ds \<noteq> [] \<and> list_all is_digit ds
      | _ \<Rightarrow> False)"

text \<open>Some position of \<open>pre\<close>, in the text \<open>pre @ u\<close>, starts a word that \<open>P\<close> accepts.\<close>

fun starts_within :: "(string \<Rightarrow> bool) \<Rightarrow> string \<Rightarrow> string \<Rightarrow> bool" where
  "starts_within P [] u = False"
| "starts_within P (c # pre) u = (P (c # pre @ u) \<or> starts_within P pre u)"


section \<open>Properties\<close>

subsection \<open>The risk banner\<close>


lemma heading_neq:
  "high_heading a \<noteq> moderate_heading b"
  "high_heading a \<noteq> low_heading b"
  "moderate_heading a \<noteq> low_heading b"
  by (simp_all add: high_heading_def moderate_heading_def low_heading_def
      red_circle_def orange_circle_def green_circle_def)



text \<open>
  C2. On the scores 0 to 100 the banner is the Low Risk one exactly on 0 to 33, the
  Moderate Risk one exactly on 34 to 66 and the High Risk one exactly on 67 to 100.
  The three headings differ, so each score gets exactly one tier and the ranges meet
  at 33/34 and 66/67 without gap or overlap.
\<close>

theorem C2_tiers_partition:
  assumes "0 \<le> s" and "s \<le> 100"
  shows "(display_risk_level s [] = [low_heading s] \<longleftrightarrow> s \<le> 33)
       \<and> (display_risk_level s [] = [moderate_heading s] \<longleftrightarrow> 34 \<le> s \<and> s \<le> 66)
       \<and> (display_risk_level s [] = [high_heading s, crisis_link] \<longleftrightarrow> 67 \<le> s)"
  using heading_neq [of s s] heading_neq(1,2) [symmetric, of s s] heading_neq(3) [symmetric, of s s]
  by (auto simp add: display_risk_level_def st_markdown_def)

theorem C2_witness:
  "(0::int) \<le> 33 \<and> (33::int) \<le> 100
   \<and> display_risk_level 33 [] = [low_heading 33]
   \<and> display_risk_level 33 [] \<noteq> [moderate_heading 33]
   \<and> display_risk_level 33 [] \<noteq> [high_heading 33, crisis_link]"
proof -
  have h0: "(0::int) \<le> 33" and h1: "(33::int) \<le> 100" by simp_all
  have e: "(33::int) \<le> 33" "\<not> (34::int) \<le> 33" "\<not> (67::int) \<le> 33" by simp_all
  show ?thesis
    using h0 h1 e C2_tiers_partition [OF h0 h1] by blast
qed

subsection \<open>How the patterns match\<close>

lemma lazy_star_suffix: "s' \<in> set (lazy_star ic a s) \<Longrightarrow> suffix s' s"
  by (induction s) (auto simp: suffix_Cons split: if_splits)

lemma greedy_suffix: "s' \<in> set (greedy ic a lo hi s) \<Longrightarrow> suffix s' s"
  by (induction s arbitrary: lo hi) (auto simp: suffix_Cons split: if_splits)

lemma rmatch_suffix: "(g, s') \<in> set (rmatch ic r s) \<Longrightarrow> suffix s' s"
proof (induction r arbitrary: g s s')
  case (Seq r1 r2)
  then show ?case by (auto, meson suffix_order.trans)
next
  case (Atom x)
  then show ?case by (auto simp: suffix_Cons split: list.splits if_splits)
qed (auto dest: lazy_star_suffix greedy_suffix)

lemma rmatch_shorter:
  assumes "(g, s') \<in> set (rmatch ic r s)" and "s' \<noteq> s"
  shows "length s' < length s"
  using rmatch_suffix [OF assms(1)] assms(2) by (auto simp: suffix_def)


lemma split_pair_id: "map (\<lambda>(g2, s2). (g2, s2)) xs = xs"
  by (induction xs) auto

lemma rmatch_lit:
  "rmatch True (lit w) s = (if ci_prefix w s then [([], drop (length w) s)] else [])"
proof (induction w arbitrary: s)
  case Nil
  then show ?case by (simp add: ci_prefix_def)
next
  case (Cons c w)
  show ?case
  proof (cases s)
    case Nil
    then show ?thesis by (simp add: ci_prefix_def)
  next
    case (Cons d t)
    then show ?thesis using Cons.IH [of t]
      by (auto simp add: ci_prefix_def)
  qed
qed

lemma rmatch_lazy_dot_Nil:
  "rmatch ic (Seq (Lazy_star Dot) R) [] = rmatch ic R []"
  by (simp add: split_pair_id)

lemma rmatch_lazy_dot_Cons:
  "rmatch ic (Seq (Lazy_star Dot) R) (c # cs) =
     rmatch ic R (c # cs) @ (if c \<noteq> newline then rmatch ic (Seq (Lazy_star Dot) R) cs else [])"
  by (simp add: split_pair_id)


lemma greedy_digit_shape:
  "\<exists>R. greedy ic Digit lo hi s =
       (if lo \<le> cap hi (length (takeWhile is_digit s))
        then drop (cap hi (length (takeWhile is_digit s))) s # R else [])
     \<and> (\<forall>x \<in> set R. x \<noteq> [] \<and> is_digit (hd x))"
proof (induction s arbitrary: lo hi)
  case Nil
  have "cap hi 0 = 0" by (cases hi) (simp_all add: cap_def)
  then show ?case by (intro exI [of _ "[]"]) simp
next
  case (Cons c cs)
  show ?case
  proof (cases "is_digit c \<and> hi \<noteq> Some 0")
    case True
    obtain R where R: "greedy ic Digit (lo - 1) (map_option (\<lambda>h. h - 1) hi) cs =
       (if lo - 1 \<le> cap (map_option (\<lambda>h. h - 1) hi) (length (takeWhile is_digit cs))
        then drop (cap (map_option (\<lambda>h. h - 1) hi) (length (takeWhile is_digit cs))) cs # R else [])"
      and Rd: "\<forall>x \<in> set R. x \<noteq> [] \<and> is_digit (hd x)"
      using Cons.IH [of "lo - 1" "map_option (\<lambda>h. h - 1) hi"] by blast
    have c: "cap hi (length (takeWhile is_digit (c # cs)))
           = Suc (cap (map_option (\<lambda>h. h - 1) hi) (length (takeWhile is_digit cs)))"
      using True by (cases hi) (auto simp: cap_def)
    show ?thesis
    proof (cases "lo \<le> cap hi (length (takeWhile is_digit (c # cs)))")
      case le: True
      then have "lo - 1 \<le> cap (map_option (\<lambda>h. h - 1) hi) (length (takeWhile is_digit cs))"
        using c by simp
      then show ?thesis using True R Rd c le
        by (intro exI [of _ "R @ (if lo = 0 then [c # cs] else [])"]) auto
    next
      case gt: False
      then have "\<not> lo - 1 \<le> cap (map_option (\<lambda>h. h - 1) hi) (length (takeWhile is_digit cs))" "lo \<noteq> 0"
        using c by auto
      then show ?thesis using True R gt by (intro exI [of _ "[]"]) auto
    qed
  next
    case False
    then have "cap hi (length (takeWhile is_digit (c # cs))) = 0"
      by (cases hi) (auto simp: cap_def)
    then show ?thesis using False by (intro exI [of _ "[]"]) auto
  qed
qed

lemma group_greedy_none:
  assumes "s = [] \<or> \<not> is_digit (hd s)"
  shows "rmatch ic (Group (Greedy Digit (Suc lo) hi)) s = []"
proof -
  have "takeWhile is_digit s = []" using assms by (cases s) auto
  then have "cap hi (length (takeWhile is_digit s)) = 0"
    by (cases hi) (simp_all add: cap_def)
  with greedy_digit_shape [of ic "Suc lo" hi s] show ?thesis by auto
qed

lemma group_greedy_some:
  assumes "is_digit c" and "0 < h"
  shows "\<exists>R. rmatch ic (Group (Greedy Digit 1 (Some h))) (c # cs) =
           ([take h (takeWhile is_digit (c # cs))],
            drop (min (length (takeWhile is_digit (c # cs))) h) (c # cs)) # R"
proof -
  let ?s = "c # cs"
  let ?n = "length (takeWhile is_digit ?s)"
  have n: "1 \<le> min ?n h" using assms by simp
  obtain R where R: "greedy ic Digit 1 (Some h) ?s = drop (min ?n h) ?s # R"
    using greedy_digit_shape [of ic 1 "Some h" ?s] n by (auto simp: cap_def)
  have le: "min ?n h \<le> length ?s"
    using length_takeWhile_le [of is_digit ?s] by linarith
  have "take (min ?n h) ?s = take h (take ?n ?s)"
    by (simp add: min.commute)
  also have "take ?n ?s = takeWhile is_digit ?s"
    by (rule takeWhile_eq_take [symmetric])
  finally have t: "take (length ?s - length (drop (min ?n h) ?s)) ?s = take h (takeWhile is_digit ?s)"
    using le by simp
  show ?thesis
    unfolding rmatch.simps R using t by auto
qed

lemma mem_Seq:
  "(g, s') \<in> set (rmatch ic (Seq r1 r2) s) \<Longrightarrow>
     (\<exists>g1 s1 g2. (g1, s1) \<in> set (rmatch ic r1 s) \<and> (g2, s') \<in> set (rmatch ic r2 s1) \<and> g = g1 @ g2)"
  by auto

lemma mem_Group:
  "(g, s') \<in> set (rmatch ic (Group r) s) \<Longrightarrow>
     (\<exists>g0. (g0, s') \<in> set (rmatch ic r s) \<and> g = take (length s - length s') s # g0)"
  by auto

lemma mem_greedy_digit:
  "s' \<in> set (greedy ic Digit lo hi s) \<Longrightarrow>
     \<exists>k. lo \<le> k \<and> k \<le> length s \<and> s' = drop k s \<and> list_all is_digit (take k s)"
proof (induction s arbitrary: lo hi)
  case Nil
  then show ?case by (auto split: if_splits)
next
  case (Cons c cs)
  from Cons.prems consider
    (more) "is_digit c" "s' \<in> set (greedy ic Digit (lo - 1) (map_option (\<lambda>h. h - 1) hi) cs)"
    | (stop) "lo = 0" "s' = c # cs"
    by (auto split: if_splits)
  then show ?case
  proof cases
    case more
    from Cons.IH [OF more(2)] obtain k where
      k: "lo - 1 \<le> k" "k \<le> length cs" "s' = drop k cs" "list_all is_digit (take k cs)"
      by blast
    with more(1) show ?thesis
      by (intro exI [of _ "Suc k"]) auto
  next
    case stop
    then show ?thesis by (intro exI [of _ 0]) simp
  qed
qed

lemma lower_literals:
  "map lower ''Positive'' = ''positive''"
  "map lower ''Neutral'' = ''neutral''"
  "map lower ''Negative'' = ''negative''"
  "map lower ''Risk'' = ''risk''"
  by code_simp+






lemma ci_prefix_word:
  assumes "map lower w = map lower v"
  shows "ci_prefix v (w @ u)"
proof -
  from assms have "length w = length v" by (rule map_eq_imp_length_eq)
  with assms show ?thesis by (simp add: ci_prefix_def)
qed

subsection \<open>The risk pattern\<close>

lemma first_digit_run_None:
  "first_digit_run s = None \<Longrightarrow> rmatch True risk_tail s = []"
proof (induction s)
  case Nil
  then show ?case
    unfolding risk_tail_def rmatch_lazy_dot_Nil
    using group_greedy_none [of "[]" True 0 "Some 3"] by simp
next
  case (Cons c cs)
  from Cons.prems have nd: "\<not> is_digit c" by (auto split: if_splits)
  have g: "rmatch True (Group (Greedy Digit 1 (Some 3))) (c # cs) = []"
    using group_greedy_none [of "c # cs" True 0 "Some 3"] nd by simp
  show ?case
  proof (cases "c = newline")
    case True
    then show ?thesis unfolding risk_tail_def rmatch_lazy_dot_Cons g by simp
  next
    case False
    with Cons.prems nd have "first_digit_run cs = None" by simp
    from Cons.IH [OF this] False show ?thesis
      unfolding risk_tail_def rmatch_lazy_dot_Cons g by simp
  qed
qed

lemma first_digit_run_Some:
  "first_digit_run s = Some ds \<Longrightarrow> \<exists>s' R. rmatch True risk_tail s = ([ds], s') # R"
proof (induction s)
  case Nil
  then show ?case by simp
next
  case (Cons c cs)
  show ?case
  proof (cases "is_digit c")
    case True
    with Cons.prems have ds: "ds = take 3 (takeWhile is_digit (c # cs))" by simp
    from group_greedy_some [OF True, of 3 True cs] obtain R where
      "rmatch True (Group (Greedy Digit 1 (Some 3))) (c # cs) =
         ([take 3 (takeWhile is_digit (c # cs))],
          drop (min (length (takeWhile is_digit (c # cs))) 3) (c # cs)) # R"
      by auto
    then show ?thesis
      unfolding risk_tail_def rmatch_lazy_dot_Cons ds by simp
  next
    case False
    have g: "rmatch True (Group (Greedy Digit 1 (Some 3))) (c # cs) = []"
      using group_greedy_none [of "c # cs" True 0 "Some 3"] False by simp
    from Cons.prems False have nl: "c \<noteq> newline" and r: "first_digit_run cs = Some ds"
      by (auto split: if_splits)
    from Cons.IH [OF r] nl show ?thesis
      unfolding risk_tail_def rmatch_lazy_dot_Cons g by simp
  qed
qed

lemma first_digit_run_digits:
  "first_digit_run s = Some ds \<Longrightarrow> ds \<noteq> [] \<and> list_all is_digit ds"
proof (induction s)
  case Nil
  then show ?case by simp
next
  case (Cons c cs)
  show ?case
  proof (cases "is_digit c")
    case True
    with Cons.prems have ds: "ds = take 3 (takeWhile is_digit (c # cs))" by simp
    have "set ds \<subseteq> set (takeWhile is_digit (c # cs))"
      unfolding ds by (rule set_take_subset)
    then have "\<forall>x \<in> set ds. is_digit x" by (auto dest: set_takeWhileD)
    then show ?thesis using True ds by (simp add: list_all_iff)
  next
    case False
    with Cons show ?thesis by (auto split: if_splits)
  qed
qed

lemma first_digit_run_mid:
  assumes "\<forall>c \<in> set mid. \<not> is_digit c \<and> c \<noteq> newline" and "is_digit d"
  shows "first_digit_run (mid @ d # rest) = Some (take 3 (takeWhile is_digit (d # rest)))"
  using assms by (induction mid) auto


lemma rmatch_risk_re:
  "rmatch True risk_re s = (if ci_prefix ''Risk'' s then rmatch True risk_tail (drop 4 s) else [])"
proof -
  have l: "drop (length ''Risk'') s = drop 4 s"
    by (simp add: eval_nat_numeral)
  have "rmatch True risk_re s =
      concat (map (\<lambda>(g1, s1). map (\<lambda>(g2, s2). (g1 @ g2, s2)) (rmatch True risk_tail s1))
                (rmatch True (lit ''Risk'') s))"
    unfolding risk_re_def risk_tail_def by (simp only: rmatch.simps)
  also have "\<dots> = (if ci_prefix ''Risk'' s then rmatch True risk_tail (drop 4 s) else [])"
    unfolding rmatch_lit l [symmetric] by (simp add: split_pair_id del: length_Cons)
  finally show ?thesis .
qed

lemma py_int_digits: "ds \<noteq> [] \<Longrightarrow> list_all is_digit ds \<Longrightarrow> py_int ds = Inr (dec_val 0 ds)"
  by (simp add: py_int_def)

lemma dec_val_nonneg: "list_all is_digit ds \<Longrightarrow> 0 \<le> acc \<Longrightarrow> 0 \<le> dec_val acc ds"
proof (induction ds arbitrary: acc)
  case Nil
  then show ?case by simp
next
  case (Cons c ds)
  from Cons.prems have "0 \<le> digit_val c" by (simp add: is_digit_def digit_val_def)
  with Cons.prems have "0 \<le> 10 * acc + digit_val c" by simp
  with Cons show ?case by simp
qed

lemma parse_risk_score_spec: "parse_risk_score t = Inr (spec_extractRiskScore t)"
proof -
  have "(case re_search True risk_re t of
        Some g \<Rightarrow>
          (case g of
             [] \<Rightarrow> Inl IndexError
           | g1 # _ \<Rightarrow>
               (case py_int g1 of
                  Inl e \<Rightarrow> Inl e
                | Inr val \<Rightarrow> Inr (max 0 (min val 100))))
      | None \<Rightarrow> Inr 0) = Inr (spec_extractRiskScore t)"
  proof (induction t)
    case Nil
    have "rmatch True risk_re [] = []"
      unfolding rmatch_risk_re by (simp add: ci_prefix_def)
    then show ?case by simp
  next
    case (Cons c cs)
    show ?case
    proof (cases "ci_prefix ''Risk'' (c # cs)")
      case False
      then have "rmatch True risk_re (c # cs) = []"
        unfolding rmatch_risk_re by simp
      then show ?thesis using Cons.IH False by simp
    next
      case True
      show ?thesis
      proof (cases "first_digit_run (drop 4 (c # cs))")
        case None
        from first_digit_run_None [OF None] have "rmatch True risk_re (c # cs) = []"
          unfolding rmatch_risk_re by simp
        then show ?thesis using Cons.IH True None by simp
      next
        case (Some ds)
        from first_digit_run_Some [OF Some] obtain s' R where
          "rmatch True risk_re (c # cs) = ([ds], s') # R"
          unfolding rmatch_risk_re using True by auto
        moreover have "py_int ds = Inr (dec_val 0 ds)"
          using first_digit_run_digits [OF Some] py_int_digits by blast
        ultimately show ?thesis using True Some by simp
      qed
    qed
  qed
  then show ?thesis by (simp add: parse_risk_score_def)
qed

lemma spec_risk_skip:
  "\<not> starts_within (ci_prefix ''Risk'') pre u \<Longrightarrow>
     spec_extractRiskScore (pre @ u) = spec_extractRiskScore u"
  by (induction pre) auto

lemma risk_capture:
  assumes w: "map lower w = ''risk''"
    and pre: "\<not> starts_within (ci_prefix ''Risk'') pre (w @ mid @ d # rest)"
    and mid: "\<forall>c \<in> set mid. \<not> is_digit c \<and> c \<noteq> newline"
    and d: "is_digit d"
  shows "parse_risk_score (pre @ w @ mid @ d # rest) =
           Inr (max 0 (min (dec_val 0 (take 3 (takeWhile is_digit (d # rest)))) 100))"
proof -
  from w have len: "length w = 4" by (auto dest: map_eq_imp_length_eq)
  have p: "ci_prefix ''Risk'' (w @ mid @ d # rest)"
    by (rule ci_prefix_word) (simp only: w lower_literals)
  from len obtain c cs where wc: "w = c # cs" by (cases w) auto
  have dr: "drop 4 (w @ mid @ d # rest) = mid @ d # rest" using len by simp
  have "spec_extractRiskScore (w @ mid @ d # rest) =
          max 0 (min (dec_val 0 (take 3 (takeWhile is_digit (d # rest)))) 100)"
    using p dr first_digit_run_mid [OF mid d, of rest] unfolding wc
    by (simp del: first_digit_run.simps)
  with spec_risk_skip [OF pre] show ?thesis
    unfolding parse_risk_score_spec by simp
qed


subsection \<open>The sentiment pattern\<close>

lemma sentiment_re_split: "sentiment_re = Seq label_re sentiment_tail"
  by (simp add: sentiment_re_def label_re_def sentiment_tail_def percent_re_def)

lemma rmatch_label_re:
  "rmatch True label_re s =
     (if ci_prefix ''Positive'' s then [([take 8 s], drop 8 s)] else [])
   @ (if ci_prefix ''Neutral'' s then [([take 7 s], drop 7 s)] else [])
   @ (if ci_prefix ''Negative'' s then [([take 8 s], drop 8 s)] else [])"
proof -
  have l: "length ''Positive'' = 8" "length ''Neutral'' = 7" "length ''Negative'' = 8"
    by (simp_all add: eval_nat_numeral)
  have d: "length s - (length s - n) = min n (length s)" for n by auto
  have t: "take (min n (length s)) s = take n s" for n by (simp add: min_def)
  show ?thesis
    unfolding label_re_def rmatch.simps rmatch_lit l
    by (simp add: d t)
qed

lemma percent_outcome:
  assumes "(g, s') \<in> set (rmatch ic percent_re s)"
  shows "\<exists>ds. g = [ds] \<and> ds \<noteq> [] \<and> list_all is_digit ds"
proof -
  from mem_Seq [OF assms [unfolded percent_re_def]] obtain g1 s1 g2 where
    a: "(g1, s1) \<in> set (rmatch ic (Group (Greedy Digit 1 None)) s)"
    and b: "(g2, s') \<in> set (rmatch ic (Atom (Chr CHR ''%'')) s1)" and g: "g = g1 @ g2"
    by blast
  from b have g2: "g2 = []" by (auto split: list.splits if_splits)
  from mem_Group [OF a] obtain g0 where
    c: "(g0, s1) \<in> set (rmatch ic (Greedy Digit 1 None) s)"
    and g1: "g1 = take (length s - length s1) s # g0"
    by blast
  from c have g0: "g0 = []" and m: "s1 \<in> set (greedy ic Digit 1 None s)" by auto
  from mem_greedy_digit [OF m] obtain k where
    k: "1 \<le> k" "k \<le> length s" "s1 = drop k s" "list_all is_digit (take k s)"
    by blast
  then have "take (length s - length s1) s = take k s" by simp
  moreover have "take k s \<noteq> []" using k by auto
  ultimately show ?thesis using g g1 g2 g0 k(4) by simp
qed

lemma tail_outcome:
  assumes "(g, s') \<in> set (rmatch ic sentiment_tail s)"
  shows "\<exists>ds. g = [ds] \<and> ds \<noteq> [] \<and> list_all is_digit ds"
proof -
  from mem_Seq [OF assms [unfolded sentiment_tail_def]] obtain g1 s1 g2 where
    a: "(g1, s1) \<in> set (rmatch ic (Lazy_star Dot) s)"
    and b: "(g2, s') \<in> set (rmatch ic percent_re s1)" and g: "g = g1 @ g2"
    by blast
  from a have "g1 = []" by auto
  with percent_outcome [OF b] g show ?thesis by simp
qed

lemma label_outcome:
  assumes "(g, s') \<in> set (rmatch True label_re s)"
  shows "\<exists>lab. g = [lab] \<and> is_label lab \<and> length s' < length s"
proof -
  from assms consider
    (p) "ci_prefix ''Positive'' s" "g = [take 8 s]" "s' = drop 8 s"
    | (u) "ci_prefix ''Neutral'' s" "g = [take 7 s]" "s' = drop 7 s"
    | (n) "ci_prefix ''Negative'' s" "g = [take 8 s]" "s' = drop 8 s"
    unfolding rmatch_label_re by (auto split: if_splits)
  then show ?thesis
  proof cases
    case p
    from p(1) have "map lower (take 8 s) = ''positive''" "8 \<le> length s"
      by (simp_all add: ci_prefix_def eval_nat_numeral lower_literals [simplified])
    then show ?thesis using p by (simp add: is_label_def)
  next
    case u
    from u(1) have "map lower (take 7 s) = ''neutral''" "7 \<le> length s"
      by (simp_all add: ci_prefix_def eval_nat_numeral lower_literals [simplified])
    then show ?thesis using u by (simp add: is_label_def)
  next
    case n
    from n(1) have "map lower (take 8 s) = ''negative''" "8 \<le> length s"
      by (simp_all add: ci_prefix_def eval_nat_numeral lower_literals [simplified])
    then show ?thesis using n by (simp add: is_label_def)
  qed
qed

lemma sentiment_outcome:
  assumes "(g, s') \<in> set (rmatch True sentiment_re s)"
  shows "wf_match g \<and> s' \<noteq> s"
proof -
  from mem_Seq [OF assms [unfolded sentiment_re_split]] obtain g1 s1 g2 where
    a: "(g1, s1) \<in> set (rmatch True label_re s)"
    and b: "(g2, s') \<in> set (rmatch True sentiment_tail s1)" and g: "g = g1 @ g2"
    by blast
  from label_outcome [OF a] obtain lab where
    lab: "g1 = [lab]" "is_label lab" "length s1 < length s" by blast
  from tail_outcome [OF b] obtain ds where
    ds: "g2 = [ds]" "ds \<noteq> []" "list_all is_digit ds" by blast
  from rmatch_suffix [OF b] have "length s' \<le> length s1" by (rule suffix_length_le)
  with lab(3) have "s' \<noteq> s" by auto
  then show ?thesis using g lab ds by (simp add: wf_match_def)
qed











subsection \<open>The scan of \<^verbatim>\<open>findall\<close> and the mapping\<close>






lemma sentiment_filter:
  "filter (\<lambda>(g, s'). \<not> adv \<or> s' \<noteq> s) (rmatch True sentiment_re s) = rmatch True sentiment_re s"
  by (rule filter_True) (auto dest: sentiment_outcome)



lemma findall_sentiment_adv:
  "re_findall True sentiment_re adv s = re_findall True sentiment_re False s"
  by (subst re_findall.simps, subst (2) re_findall.simps) (simp only: sentiment_filter)











subsection \<open>The risk score\<close>



text \<open>
  C10. When "Risk", with no occurrence of the word before it, is followed on its line
  by non-digits and then by a run of more than three digits, the score is the value of
  the first three digits of the run, brought down to 100 when it is larger: the rest
  of the run is not read. So \<^verbatim>\<open>Risk ... 2024\<close> gives 100, from 202.
\<close>

theorem C10_long_run_cut_to_three_digits:
  assumes "map lower w = ''risk''"
    and "\<not> starts_within (ci_prefix ''Risk'') pre (w @ mid @ ds @ rest)"
    and "\<forall>c \<in> set mid. \<not> is_digit c \<and> c \<noteq> newline"
    and "list_all is_digit ds" and "3 < length ds"
  shows "parse_risk_score (pre @ w @ mid @ ds @ rest) = Inr (min 100 (dec_val 0 (take 3 ds)))"
proof -
  from assms(5) obtain d ds' where ds: "ds = d # ds'" by (cases ds) auto
  with assms(4) have d: "is_digit d" by simp
  have tw: "takeWhile is_digit (ds @ rest) = ds @ takeWhile is_digit rest"
    using assms(4) by (simp add: takeWhile_append2 list_all_iff)
  have t3: "take 3 (takeWhile is_digit (d # ds' @ rest)) = take 3 ds"
    using tw assms(5) unfolding ds by simp
  have "list_all is_digit (take 3 ds)"
    using assms(4) by (auto simp: list_all_iff dest: in_set_takeD)
  then have nn: "0 \<le> dec_val 0 (take 3 ds)" by (simp add: dec_val_nonneg)
  from risk_capture [OF assms(1) assms(2) [unfolded ds, simplified] assms(3) d, of ]
  have "parse_risk_score (pre @ w @ mid @ d # ds' @ rest) =
          Inr (max 0 (min (dec_val 0 (take 3 ds)) 100))"
    unfolding t3 by simp
  with nn show ?thesis unfolding ds by (simp add: min.commute)
qed

theorem C10_witness:
  "parse_risk_score ''Risk ... 2024'' = Inr 100
   \<and> parse_risk_score ''Overall risk: 0051 of 100'' = Inr 5"
proof -
  have a: "map lower ''Risk'' = ''risk''" by code_simp
  have b: "\<not> starts_within (ci_prefix ''Risk'') [] (''Risk'' @ '' ... '' @ ''2024'' @ [])" by simp
  have c: "\<forall>c \<in> set '' ... ''. \<not> is_digit c \<and> c \<noteq> newline" by code_simp
  have d: "list_all is_digit ''2024''" by code_simp
  have e: "3 < length ''2024''" by simp
  have a': "map lower ''risk'' = ''risk''" by code_simp
  have b': "\<not> starts_within (ci_prefix ''Risk'') ''Overall '' (''risk'' @ '': '' @ ''0051'' @ '' of 100'')"
    by code_simp
  have c': "\<forall>c \<in> set '': ''. \<not> is_digit c \<and> c \<noteq> newline" by code_simp
  have d': "list_all is_digit ''0051''" by code_simp
  have e': "3 < length ''0051''" by simp
  have v: "min 100 (dec_val 0 (take 3 ''2024'')) = 100" "min 100 (dec_val 0 (take 3 ''0051'')) = 5"
    by code_simp+
  from C10_long_run_cut_to_three_digits [OF a b c d e]
    C10_long_run_cut_to_three_digits [OF a' b' c' d' e']
  show ?thesis unfolding v by simp
qed

subsection \<open>The sentiment mapping\<close>









subsection \<open>Parsing never raises\<close>



subsection \<open>What may stand between the keyword and its number\<close>




subsection \<open>The report export\<close>







end
